theory Spec2Isabelle
  imports Main "HOL-Library.Word" "HOL-Library.Sublist"
begin

unbundle bit_operations_syntax

section \<open>Data model of package jitter\<close>

text \<open>
  \<^verbatim>\<open>time.Duration\<close> is an \<^verbatim>\<open>int64\<close> count of nanoseconds: a 64-bit word read
  with \<open>sint\<close>, whose addition wraps. A \<^verbatim>\<open>time.Time\<close> is represented by the clock
  reading (in nanoseconds) at which \<^verbatim>\<open>time.Now()\<close> was called.
\<close>

type_synonym duration = "64 word"
type_synonym time = int
type_synonym chan_id = nat

text \<open>
  A panic carries its value: the error built by \<^verbatim>\<open>fmt.Errorf(format, arg)\<close> in
  \<^verbatim>\<open>NewTicker\<close>, or the message of a panic raised by the Go runtime or library. The
  argument is \<^verbatim>\<open>int(interval)\<close>, on a 64-bit platform the duration itself.
\<close>

datatype panic = Errorf string int | RuntimePanic string

text \<open>
  \<^verbatim>\<open>*rand.Rand\<close>: the sequence of raw 63-bit outputs that the source yields for its
  seed, and the number of outputs consumed so far.
\<close>

record rand =
  src :: "nat \<Rightarrow> 64 word"
  pos :: nat

text \<open>A channel: its capacity, the values buffered in it (oldest first), and whether it is closed.\<close>

record chan =
  cap :: nat
  buf :: "time list"
  closed :: bool

record Ticker =
  C :: chan_id
  interval :: duration
  jitter :: duration
  stop :: chan_id
  random :: rand

text \<open>
  A goroutine started by \<^verbatim>\<open>go ticker.tick(c)\<close>: the receiver (a copy of the struct, the
  method has a value receiver), the argument \<^verbatim>\<open>c\<close>, and whether the loop is still
  running (\<open>alive\<close> becomes false at \<^verbatim>\<open>break loop\<close>).
\<close>

record task =
  self :: Ticker
  out :: chan_id
  alive :: bool

text \<open>What an observer of the program can see happen, in the order it happens.\<close>

datatype event = Sent time | Dropped time | Exited | Received time

text \<open>
  The state of the Go program: the clock, the channels allocated by \<^verbatim>\<open>make\<close> (a
  channel value is its index), the goroutines started by \<^verbatim>\<open>go\<close>, and the log of
  events.
\<close>

record world =
  clock :: time
  chans :: "chan list"
  tasks :: "task list"
  trace :: "event list"

definition fresh :: "time \<Rightarrow> world" where
  "fresh now = \<lparr>clock = now, chans = [], tasks = [], trace = []\<rparr>"

section \<open>Runtime and library operations used by the package\<close>

definition make_chan :: "nat \<Rightarrow> world \<Rightarrow> chan_id \<times> world" where
  "make_chan n w =
     (length (chans w), w\<lparr>chans := chans w @ [\<lparr>cap = n, buf = [], closed = False\<rparr>]\<rparr>)"

definition go :: "task \<Rightarrow> world \<Rightarrow> world" where
  "go k w = w\<lparr>tasks := tasks w @ [k]\<rparr>"

text \<open>A channel value that was never made behaves as the nil channel.\<close>

definition chan_at :: "world \<Rightarrow> chan_id \<Rightarrow> chan option" where
  "chan_at w c = (if c < length (chans w) then Some (chans w ! c) else None)"

definition close_chan :: "chan_id \<Rightarrow> world \<Rightarrow> panic + world" where
  "close_chan c w =
     (case chan_at w c of
        None \<Rightarrow> Inl (RuntimePanic ''close of nil channel'')
      | Some ch \<Rightarrow>
          if closed ch then Inl (RuntimePanic ''close of closed channel'')
          else Inr (w\<lparr>chans := (chans w)[c := ch\<lparr>closed := True\<rparr>]\<rparr>))"

text \<open>
  Whether a communication of a \<^verbatim>\<open>select\<close> can proceed. A receive can proceed when a
  value is buffered or the channel is closed; a send when the buffer has room, or the
  channel is closed (it then panics). A communication on the nil channel never proceeds,
  so \<open>chan_send\<close> is never run on it. No goroutine ever sends on the stop channel and
  the event channel is buffered, so no communication waits for a partner.
\<close>

definition can_recv :: "world \<Rightarrow> chan_id \<Rightarrow> bool" where
  "can_recv w c = (case chan_at w c of None \<Rightarrow> False | Some ch \<Rightarrow> buf ch \<noteq> [] \<or> closed ch)"

definition can_send :: "world \<Rightarrow> chan_id \<Rightarrow> bool" where
  "can_send w c =
     (case chan_at w c of None \<Rightarrow> False | Some ch \<Rightarrow> closed ch \<or> length (buf ch) < cap ch)"

definition chan_send :: "chan_id \<Rightarrow> time \<Rightarrow> world \<Rightarrow> panic + world" where
  "chan_send c v w =
     (case chan_at w c of
        None \<Rightarrow> Inr w
      | Some ch \<Rightarrow>
          if closed ch then Inl (RuntimePanic ''send on closed channel'')
          else Inr (w\<lparr>chans := (chans w)[c := ch\<lparr>buf := buf ch @ [v]\<rparr>]\<rparr>))"

text \<open>
  \<^verbatim>\<open>time.Sleep(d)\<close> pauses for at least \<open>d\<close>; a negative or zero \<open>d\<close> returns at once.
  \<open>slack\<close> is how much later than asked the goroutine wakes (chosen by the scheduler).
\<close>

definition time_Sleep :: "duration \<Rightarrow> nat \<Rightarrow> world \<Rightarrow> world" where
  "time_Sleep d slack w = w\<lparr>clock := clock w + max 0 (sint d) + int slack\<rparr>"

text \<open>
  \<^verbatim>\<open>math/rand\<close>, by its documented contract: \<^verbatim>\<open>Int63\<close> returns a non-negative 63-bit
  integer and advances the source; \<^verbatim>\<open>Int63n(n)\<close> panics if \<open>n \<le> 0\<close> and otherwise
  returns a number in \<open>[0, n)\<close>, here the raw output reduced modulo \<open>n\<close>.
\<close>

definition Int63 :: "rand \<Rightarrow> 64 word \<times> rand" where
  "Int63 r = (src r (pos r) AND mask 63, r\<lparr>pos := Suc (pos r)\<rparr>)"

definition Int63n :: "rand \<Rightarrow> 64 word \<Rightarrow> panic + (64 word \<times> rand)" where
  "Int63n r n =
     (if sint n \<le> 0 then Inl (RuntimePanic ''invalid argument to Int63n'')
      else case Int63 r of (v, r') \<Rightarrow> Inr (v mod n, r'))"

section \<open>The package\<close>

text \<open>
  \<^verbatim>\<open>NewTicker\<close>. \<open>NewSource\<close> stands for \<^verbatim>\<open>rand.NewSource\<close>: the output sequence as a
  function of the seed. The seed is \<^verbatim>\<open>time.Now().UnixNano()\<close>, an \<^verbatim>\<open>int64\<close>. The
  result pairs what the call returns (or the panic) with the state it leaves.
\<close>

definition NewTicker ::
  "(64 word \<Rightarrow> nat \<Rightarrow> 64 word) \<Rightarrow> duration \<Rightarrow> duration \<Rightarrow> world \<Rightarrow> (panic + Ticker) \<times> world" where
  "NewTicker NewSource intv jit w =
     (if sint intv \<le> 0 then
        (Inl (Errorf ''non-positive interval for NewTicker: %d'' (sint intv)), w)
      else if sint jit \<le> 0 then
        (Inl (Errorf ''non-positive jitter for NewTicker: %d'' (sint jit)), w)
      else
        let source = NewSource (of_int (clock w));
            rnd = \<lparr>src = source, pos = 0\<rparr>;
            (c, w1) = make_chan 1 w;
            (s, w2) = make_chan 0 w1;
            ticker = \<lparr>C = c, interval = intv, jitter = jit, stop = s, random = rnd\<rparr>
        in (Inr ticker, go \<lparr>self = ticker, out = c, alive = True\<rparr> w2))"

text \<open>
  \<^verbatim>\<open>sleep\<close>: draws the delay, adds it to the interval in \<^verbatim>\<open>int64\<close> and sleeps. The
  generator behind the \<^verbatim>\<open>random\<close> pointer is used by this goroutine only, so its new
  state is returned in the receiver.
\<close>

definition sleep :: "Ticker \<Rightarrow> nat \<Rightarrow> world \<Rightarrow> panic + (Ticker \<times> world)" where
  "sleep t slack w =
     (case Int63n (random t) (jitter t) of
        Inl e \<Rightarrow> Inl e
      | Inr (delay, r') \<Rightarrow> Inr (t\<lparr>random := r'\<rparr>, time_Sleep (interval t + delay) slack w))"

text \<open>
  The \<^verbatim>\<open>select\<close> of \<^verbatim>\<open>tick\<close> has three cases. Go chooses, among the communications
  that can proceed, one by a uniform pseudo-random selection, and takes \<^verbatim>\<open>default\<close>
  only when none can proceed. \<open>pick\<close> is the runtime's random number for this choice.
\<close>

datatype select_case = RecvStop | SendC | Default

definition ready :: "Ticker \<Rightarrow> chan_id \<Rightarrow> world \<Rightarrow> select_case list" where
  "ready t c w =
     (if can_recv w (stop t) then [RecvStop] else []) @ (if can_send w c then [SendC] else [])"

definition select_pick :: "nat \<Rightarrow> select_case list \<Rightarrow> select_case" where
  "select_pick pick rs = (if rs = [] then Default else rs ! (pick mod length rs))"

text \<open>
  One iteration of the loop of \<^verbatim>\<open>tick\<close>: \<^verbatim>\<open>t.sleep()\<close>, then \<^verbatim>\<open>time.Now()\<close> is
  evaluated on entering the \<^verbatim>\<open>select\<close>, then one case runs.
\<close>

definition tick_iter :: "nat \<Rightarrow> nat \<Rightarrow> task \<Rightarrow> world \<Rightarrow> panic + (task \<times> world)" where
  "tick_iter slack pick k w =
     (case sleep (self k) slack w of
        Inl e \<Rightarrow> Inl e
      | Inr (t', w1) \<Rightarrow>
          let now = clock w1 in
          (case select_pick pick (ready t' (out k) w1) of
             RecvStop \<Rightarrow>
               Inr (k\<lparr>self := t', alive := False\<rparr>, w1\<lparr>trace := trace w1 @ [Exited]\<rparr>)
           | SendC \<Rightarrow>
               (case chan_send (out k) now w1 of
                  Inl e \<Rightarrow> Inl e
                | Inr w2 \<Rightarrow> Inr (k\<lparr>self := t'\<rparr>, w2\<lparr>trace := trace w2 @ [Sent now]\<rparr>))
           | Default \<Rightarrow>
               Inr (k\<lparr>self := t'\<rparr>, w1\<lparr>trace := trace w1 @ [Dropped now]\<rparr>)))"

text \<open>\<^verbatim>\<open>Stop\<close> closes the stop channel.\<close>

definition Stop :: "Ticker \<Rightarrow> world \<Rightarrow> panic + world" where
  "Stop t w = close_chan (stop t) w"

text \<open>The consumer's \<^verbatim>\<open><-t.C\<close>: takes the oldest buffered value; on an empty buffer it waits.\<close>

definition recv_C :: "Ticker \<Rightarrow> world \<Rightarrow> world" where
  "recv_C t w =
     (case chan_at w (C t) of
        None \<Rightarrow> w
      | Some ch \<Rightarrow>
          (case buf ch of
             [] \<Rightarrow> w
           | v # vs \<Rightarrow> w\<lparr>chans := (chans w)[C t := ch\<lparr>buf := vs\<rparr>], trace := trace w @ [Received v]\<rparr>))"

text \<open>
  The program runs as an interleaving of three kinds of steps: goroutine \<open>g\<close> executes one
  iteration of its loop (waking \<open>slack\<close> late, with \<open>pick\<close> deciding its \<^verbatim>\<open>select\<close>),
  the consumer receives from \<^verbatim>\<open>t.C\<close>, or the caller calls \<^verbatim>\<open>t.Stop()\<close>. The sleep
  touches no channel and the \<^verbatim>\<open>select\<close> is atomic, so a receive or a \<^verbatim>\<open>Stop\<close> that
  happens during the sleep is a step before the iteration. The schedule unrolls the
  \<^verbatim>\<open>for\<close> loop: a goroutine whose loop has ended takes no further step; an unrecovered
  panic ends the run.
\<close>

datatype action = Cycle nat nat nat | Recv | CallStop

definition step :: "Ticker \<Rightarrow> action \<Rightarrow> world \<Rightarrow> panic + world" where
  "step t a w =
     (case a of
        Cycle g slack pick \<Rightarrow>
          if g < length (tasks w) \<and> alive (tasks w ! g) then
            (case tick_iter slack pick (tasks w ! g) w of
               Inl e \<Rightarrow> Inl e
             | Inr (k', w') \<Rightarrow> Inr (w'\<lparr>tasks := (tasks w')[g := k']\<rparr>))
          else Inr w
      | Recv \<Rightarrow> Inr (recv_C t w)
      | CallStop \<Rightarrow> Stop t w)"

fun run :: "Ticker \<Rightarrow> action list \<Rightarrow> world \<Rightarrow> panic + world" where
  "run t [] w = Inr w"
| "run t (a # as) w = (case step t a w of Inl e \<Rightarrow> Inl e | Inr w' \<Rightarrow> run t as w')"

text \<open>The timestamps the consumer has received, and those the loop has produced, in order.\<close>

fun received :: "event list \<Rightarrow> time list" where
  "received [] = []"
| "received (Received v # es) = v # received es"
| "received (_ # es) = received es"

fun produced :: "event list \<Rightarrow> time list" where
  "produced [] = []"
| "produced (Sent v # es) = v # produced es"
| "produced (Dropped v # es) = v # produced es"
| "produced (_ # es) = produced es"

fun sent :: "event list \<Rightarrow> time list" where
  "sent [] = []"
| "sent (Sent v # es) = v # sent es"
| "sent (_ # es) = sent es"

text \<open>The delays drawn by the first \<open>n\<close> calls of \<^verbatim>\<open>sleep\<close> on a ticker.\<close>

fun delays :: "Ticker \<Rightarrow> nat \<Rightarrow> 64 word list" where
  "delays t 0 = []"
| "delays t (Suc n) =
     (case Int63n (random t) (jitter t) of
        Inl e \<Rightarrow> []
      | Inr (delay, r') \<Rightarrow> delay # delays (t\<lparr>random := r'\<rparr>) n)"

section \<open>Schedules and invariants\<close>

text \<open>\<open>cycle_of g a\<close>: the step \<open>a\<close> is an iteration of the loop of goroutine \<open>g\<close>.\<close>

fun cycle_of :: "nat \<Rightarrow> action \<Rightarrow> bool" where
  "cycle_of g (Cycle g' slack pick) = (g' = g)"
| "cycle_of g Recv = False"
| "cycle_of g CallStop = False"

text \<open>
  The shape of a program state that holds ticker \<open>t\<close>: its two channels exist and differ,
  the event channel has capacity 1 and is open, nothing is buffered in the stop channel,
  and every goroutine is a \<^verbatim>\<open>tick\<close> of \<open>t\<close>.
\<close>

definition wf :: "Ticker \<Rightarrow> world \<Rightarrow> bool" where
  "wf t w \<longleftrightarrow>
     C t < length (chans w) \<and> stop t < length (chans w) \<and> C t \<noteq> stop t \<and>
     cap (chans w ! C t) = 1 \<and> \<not> closed (chans w ! C t) \<and> buf (chans w ! stop t) = [] \<and>
     0 < sint (interval t) \<and> 0 < sint (jitter t) \<and>
     list_all (\<lambda>k. out k = C t \<and> stop (self k) = stop t \<and>
                    interval (self k) = interval t \<and> jitter (self k) = jitter t) (tasks w)"

text \<open>The timestamps produced so far are in order and none is later than the clock.\<close>

definition timed :: "world \<Rightarrow> bool" where
  "timed w \<longleftrightarrow>
     sorted (produced (trace w)) \<and> list_all (\<lambda>x. x \<le> clock w) (produced (trace w))"

text \<open>There is one goroutine, and it is running as long as the stop channel is open.\<close>

definition single :: "Ticker \<Rightarrow> world \<Rightarrow> bool" where
  "single t w \<longleftrightarrow>
     length (tasks w) = 1 \<and> (\<not> closed (chans w ! stop t) \<longrightarrow> alive (tasks w ! 0))"

text \<open>
  The invariant of a run: the shape above, at most one buffered event, and the events
  received followed by the one still buffered are exactly the events sent.
\<close>

definition inv :: "Ticker \<Rightarrow> world \<Rightarrow> bool" where
  "inv t w \<longleftrightarrow>
     wf t w \<and> single t w \<and> length (buf (chans w ! C t)) \<le> 1 \<and>
     received (trace w) @ buf (chans w ! C t) = sent (trace w) \<and> timed w"

section \<open>Example inputs\<close>

text \<open>
  A random source whose \<open>k\<close>-th output is \<open>seed + k\<close>; a ticker of 100ns interval and 50ns
  jitter made at clock reading 7 in a program that has done nothing else, and the state
  that \<^verbatim>\<open>NewTicker\<close> leaves there; a second ticker made at the same clock reading; a
  ticker with the largest interval an \<^verbatim>\<open>int64\<close> holds; two schedules and the states they
  lead to.
\<close>

definition demo_source :: "64 word \<Rightarrow> nat \<Rightarrow> 64 word" where
  "demo_source seed k = seed + of_nat k"

definition demo_ticker :: Ticker where
  "demo_ticker = \<lparr>C = 0, interval = 100, jitter = 50, stop = 1,
     random = \<lparr>src = demo_source 7, pos = 0\<rparr>\<rparr>"

definition demo_world :: world where
  "demo_world = \<lparr>clock = 7,
     chans = [\<lparr>cap = 1, buf = [], closed = False\<rparr>, \<lparr>cap = 0, buf = [], closed = False\<rparr>],
     tasks = [\<lparr>self = demo_ticker, out = 0, alive = True\<rparr>], trace = []\<rparr>"

definition demo_twin :: Ticker where
  "demo_twin = \<lparr>C = 2, interval = 100, jitter = 50, stop = 3,
     random = \<lparr>src = demo_source 7, pos = 0\<rparr>\<rparr>"

definition huge_ticker :: Ticker where
  "huge_ticker = \<lparr>C = 0, interval = 9223372036854775807, jitter = 2, stop = 1,
     random = \<lparr>src = demo_source 1, pos = 0\<rparr>\<rparr>"

definition demo_sched :: "action list" where
  "demo_sched = [Cycle 0 0 0, Cycle 0 2 0, Recv, Cycle 0 0 0]"

definition demo_final :: world where
  "demo_final = \<lparr>clock = 333,
     chans = [\<lparr>cap = 1, buf = [333], closed = False\<rparr>, \<lparr>cap = 0, buf = [], closed = False\<rparr>],
     tasks = [\<lparr>self = demo_ticker\<lparr>random := \<lparr>src = demo_source 7, pos = 3\<rparr>\<rparr>,
               out = 0, alive = True\<rparr>],
     trace = [Sent 114, Dropped 224, Received 114, Sent 333]\<rparr>"

definition stopped_sched :: "action list" where
  "stopped_sched = [CallStop, Cycle 0 0 1]"

definition stopped_final :: world where
  "stopped_final = \<lparr>clock = 114,
     chans = [\<lparr>cap = 1, buf = [114], closed = False\<rparr>, \<lparr>cap = 0, buf = [], closed = True\<rparr>],
     tasks = [\<lparr>self = demo_ticker\<lparr>random := \<lparr>src = demo_source 7, pos = 1\<rparr>\<rparr>,
               out = 0, alive = True\<rparr>],
     trace = [Sent 114]\<rparr>"

text \<open>
  The first schedule followed by a second receive, and the state it leads to; a ticker
  whose interval is the largest an \<^verbatim>\<open>int64\<close> holds and whose jitter is 3, made at clock
  reading 1, the state \<^verbatim>\<open>NewTicker\<close> leaves there, and the state after two cycles each
  followed by a receive.
\<close>

definition drain_sched :: "action list" where
  "drain_sched = [Cycle 0 0 0, Cycle 0 2 0, Recv, Cycle 0 0 0, Recv]"

definition drain_final :: world where
  "drain_final = \<lparr>clock = 333,
     chans = [\<lparr>cap = 1, buf = [], closed = False\<rparr>, \<lparr>cap = 0, buf = [], closed = False\<rparr>],
     tasks = [\<lparr>self = demo_ticker\<lparr>random := \<lparr>src = demo_source 7, pos = 3\<rparr>\<rparr>,
               out = 0, alive = True\<rparr>],
     trace = [Sent 114, Dropped 224, Received 114, Sent 333, Received 333]\<rparr>"

definition wrap_ticker :: Ticker where
  "wrap_ticker = \<lparr>C = 0, interval = 9223372036854775807, jitter = 3, stop = 1,
     random = \<lparr>src = demo_source 1, pos = 0\<rparr>\<rparr>"

definition wrap_world :: world where
  "wrap_world = \<lparr>clock = 1,
     chans = [\<lparr>cap = 1, buf = [], closed = False\<rparr>, \<lparr>cap = 0, buf = [], closed = False\<rparr>],
     tasks = [\<lparr>self = wrap_ticker, out = 0, alive = True\<rparr>], trace = []\<rparr>"

definition wrap_final :: world where
  "wrap_final = \<lparr>clock = 1,
     chans = [\<lparr>cap = 1, buf = [], closed = False\<rparr>, \<lparr>cap = 0, buf = [], closed = False\<rparr>],
     tasks = [\<lparr>self = wrap_ticker\<lparr>random := \<lparr>src = demo_source 1, pos = 2\<rparr>\<rparr>,
               out = 0, alive = True\<rparr>],
     trace = [Sent 1, Received 1, Sent 1, Received 1]\<rparr>"

section \<open>Signed 64-bit arithmetic\<close>

lemma sint_small: "uint (v::64 word) < 2 ^ 63 \<Longrightarrow> sint v = uint v"
proof -
  assume a: "uint v < 2 ^ 63"
  have "- (2 ^ 63) \<le> (0::int)" by simp
  also have "0 \<le> uint v" by simp
  finally show ?thesis using a by (simp add: sint_uint signed_take_bit_int_eq_self_iff)
qed

lemma sint_pos_uint: "0 < sint (n::64 word) \<Longrightarrow> sint n = uint n"
proof -
  assume a: "0 < sint n"
  have "sint n < 2 ^ 63" using sint_lt [of n] by simp
  then have "sint n < 2 ^ 64" by simp
  with a have "take_bit 64 (sint n) = sint n" by (simp add: take_bit_int_eq_self)
  then show ?thesis by (simp add: uint_sint)
qed

lemma sint_add_no_ovf:
  "sint (a::64 word) + sint b < 2 ^ 63 \<Longrightarrow> - (2 ^ 63) \<le> sint a + sint b \<Longrightarrow>
   sint (a + b) = sint a + sint b"
  by (simp add: sint_word_add signed_take_bit_int_eq_self_iff)

lemma mod_range:
  assumes n: "0 < sint (n::64 word)"
  shows "0 \<le> sint (x mod n) \<and> sint (x mod n) < sint n"
proof -
  have un: "sint n = uint n" using n by (rule sint_pos_uint)
  then have pos: "0 < uint n" using n by simp
  have lt: "uint (x mod n) < uint n" unfolding uint_mod using pos by simp
  have "uint n < 2 ^ 63" using sint_lt [of n] un by simp
  with lt have "uint (x mod n) < 2 ^ 63" by simp
  then have "sint (x mod n) = uint (x mod n)" by (rule sint_small)
  with lt un show ?thesis by simp
qed

section \<open>The select statement and the event log\<close>

lemma select_pick_nil: "select_pick pick [] = Default"
  by (simp add: select_pick_def)

lemma select_pick_one: "select_pick pick [a] = a"
  by (simp add: select_pick_def)

lemma select_pick_two: "select_pick pick [a, b] = (if pick mod 2 = 0 then a else b)"
proof -
  have 1: "select_pick pick [a, b] = [a, b] ! (pick mod 2)"
    by (simp add: select_pick_def numeral_2_eq_2)
  have 2: "[a, b] ! 0 = a" and 3: "[a, b] ! 1 = b" by simp_all
  consider (z) "pick mod 2 = 0" | (o) "pick mod 2 = 1" by arith
  then show ?thesis
  proof cases
    case z
    show ?thesis by (simp only: 1 z 2 if_True simp_thms)
  next
    case o
    show ?thesis by (simp only: 1 o 3 if_False one_neq_zero simp_thms)
  qed
qed

lemmas select_pick_simps = select_pick_nil select_pick_one select_pick_two

lemma received_append: "received (es @ es') = received es @ received es'"
  by (induction es rule: received.induct) simp_all

lemma sent_append: "sent (es @ es') = sent es @ sent es'"
  by (induction es rule: sent.induct) simp_all

lemma produced_append: "produced (es @ es') = produced es @ produced es'"
  by (induction es rule: produced.induct) simp_all

lemma subseq_sent_produced: "subseq (sent es) (produced es)"
  by (induction es rule: produced.induct) (auto intro: list_emb_Cons)

lemma sorted_wrt_subseq: "subseq xs ys \<Longrightarrow> sorted_wrt P ys \<Longrightarrow> sorted_wrt P xs"
proof (induction rule: list_emb.induct)
  case (list_emb_Nil ys)
  show ?case by simp
next
  case (list_emb_Cons xs ys y)
  then show ?case by simp
next
  case (list_emb_Cons2 x y xs ys)
  then have "x = y" and sub: "subseq xs ys" by simp_all
  have "set xs \<subseteq> set ys" using sub by (auto dest: list_emb_set)
  with list_emb_Cons2 \<open>x = y\<close> show ?case by auto
qed

lemma total_pos:
  assumes I: "0 < sint (i::64 word)" and J: "0 < sint (j::64 word)"
    and no: "sint i + sint j \<le> 2 ^ 63"
  shows "0 < sint (i + x mod j)"
proof -
  have rng: "0 \<le> sint (x mod j) \<and> sint (x mod j) < sint j" using J by (rule mod_range)
  have "sint (i + x mod j) = sint i + sint (x mod j)"
    using no rng I by (intro sint_add_no_ovf) simp_all
  with rng I show ?thesis by simp
qed


section \<open>One step preserves the invariants\<close>

lemmas unfold_ops = step_def tick_iter_def sleep_def Int63n_def Int63_def ready_def
  can_recv_def can_send_def chan_at_def chan_send_def time_Sleep_def Let_def
  Stop_def close_chan_def recv_C_def select_pick_simps

lemma wf_task: "wf t w \<Longrightarrow> g < length (tasks w) \<Longrightarrow>
   out (tasks w ! g) = C t \<and> stop (self (tasks w ! g)) = stop t \<and>
   interval (self (tasks w ! g)) = interval t \<and> jitter (self (tasks w ! g)) = jitter t"
  by (simp add: wf_def list_all_length)

lemma step_wf:
  assumes "wf t w" and "step t a w = Inr w'"
  shows "wf t w'"
proof (cases a)
  case (Cycle g slack pick)
  show ?thesis
  proof (cases "g < length (tasks w) \<and> alive (tasks w ! g)")
    case True
    then show ?thesis using assms Cycle wf_task [OF assms(1), of g]
      apply (clarsimp simp add: unfold_ops split: if_splits)
         apply (auto simp: wf_def list_all_length nth_list_update)
      done
  next
    case False
    then show ?thesis using assms Cycle by (auto simp: step_def)
  qed
next
  case Recv
  then show ?thesis using assms
    by (auto simp: unfold_ops wf_def nth_list_update split: list.splits)
next
  case CallStop
  then show ?thesis using assms
    by (auto simp: unfold_ops wf_def nth_list_update split: if_splits)
qed

lemma step_buf:
  assumes "wf t w" and "length (buf (chans w ! C t)) \<le> 1" and "step t a w = Inr w'"
  shows "length (buf (chans w' ! C t)) \<le> 1"
proof (cases a)
  case (Cycle g slack pick)
  show ?thesis
  proof (cases "g < length (tasks w) \<and> alive (tasks w ! g)")
    case True
    then show ?thesis using assms Cycle wf_task [OF assms(1), of g]
      by (auto simp: unfold_ops wf_def nth_list_update split: if_splits)
  next
    case False
    then show ?thesis using assms Cycle by (auto simp: step_def)
  qed
next
  case Recv
  then show ?thesis using assms
    by (auto simp: unfold_ops wf_def nth_list_update split: list.splits)
next
  case CallStop
  then show ?thesis using assms
    by (auto simp: unfold_ops wf_def nth_list_update split: if_splits)
qed

lemma step_fifo:
  assumes "wf t w" and "received (trace w) @ buf (chans w ! C t) = sent (trace w)"
    and "step t a w = Inr w'"
  shows "received (trace w') @ buf (chans w' ! C t) = sent (trace w')"
proof (cases a)
  case (Cycle g slack pick)
  show ?thesis
  proof (cases "g < length (tasks w) \<and> alive (tasks w ! g)")
    case True
    then show ?thesis using assms Cycle wf_task [OF assms(1), of g]
      by (auto simp: unfold_ops wf_def nth_list_update received_append sent_append
          split: if_splits)
  next
    case False
    then show ?thesis using assms Cycle by (auto simp: step_def)
  qed
next
  case Recv
  then show ?thesis using assms
    by (auto simp: unfold_ops wf_def nth_list_update received_append sent_append
        split: list.splits)
next
  case CallStop
  then show ?thesis using assms
    by (auto simp: unfold_ops wf_def nth_list_update split: if_splits)
qed

lemma step_timed:
  assumes "wf t w" and "timed w" and "step t a w = Inr w'"
  shows "timed w'"
proof (cases a)
  case (Cycle g slack pick)
  show ?thesis
  proof (cases "g < length (tasks w) \<and> alive (tasks w ! g)")
    case True
    then show ?thesis using assms Cycle wf_task [OF assms(1), of g]
      by (fastforce simp: unfold_ops timed_def produced_append sorted_append list_all_iff
          split: if_splits)
  next
    case False
    then show ?thesis using assms Cycle by (auto simp: step_def)
  qed
next
  case Recv
  then show ?thesis using assms
    by (auto simp: unfold_ops timed_def produced_append split: list.splits)
next
  case CallStop
  then show ?thesis using assms
    by (auto simp: unfold_ops timed_def split: if_splits)
qed

lemma step_panic:
  assumes "wf t w" and "step t a w = Inl e"
  shows "a = CallStop \<and> closed (chans w ! stop t) \<and> e = RuntimePanic ''close of closed channel''"
proof (cases a)
  case (Cycle g slack pick)
  show ?thesis
  proof (cases "g < length (tasks w) \<and> alive (tasks w ! g)")
    case True
    then show ?thesis using assms Cycle wf_task [OF assms(1), of g]
      by (auto simp: unfold_ops wf_def split: if_splits)
  next
    case False
    then show ?thesis using assms Cycle by (auto simp: step_def)
  qed
next
  case Recv
  then show ?thesis using assms by (auto simp: step_def)
next
  case CallStop
  then show ?thesis using assms
    by (auto simp: unfold_ops wf_def split: if_splits)
qed

lemma step_strict:
  assumes "wf t w" and "timed w" and no: "sint (interval t) + sint (jitter t) \<le> 2 ^ 63"
    and "sorted_wrt (<) (produced (trace w))" and "step t a w = Inr w'"
  shows "sorted_wrt (<) (produced (trace w'))"
proof (cases a)
  case (Cycle g slack pick)
  show ?thesis
  proof (cases "g < length (tasks w) \<and> alive (tasks w ! g)")
    case True
    have "0 < sint (interval t)" "0 < sint (jitter t)" using assms(1) by (simp_all add: wf_def)
    then have pos: "\<And>x. 0 < sint (interval t + x mod jitter t)" using no by (rule total_pos)
    show ?thesis using True assms Cycle wf_task [OF assms(1), of g]
        pos [of "src (random (self (tasks w ! g))) (pos (random (self (tasks w ! g)))) AND mask 63"]
      by (fastforce simp: unfold_ops timed_def produced_append sorted_wrt_append list_all_iff
          split: if_splits)
  next
    case False
    then show ?thesis using assms Cycle by (auto simp: step_def)
  qed
next
  case Recv
  then show ?thesis using assms
    by (auto simp: unfold_ops produced_append split: list.splits)
next
  case CallStop
  then show ?thesis using assms
    by (auto simp: unfold_ops split: if_splits)
qed

lemma step_closed:
  assumes "wf t w" and "step t a w = Inr w'"
  shows "closed (chans w' ! stop t) = (closed (chans w ! stop t) \<or> a = CallStop)"
proof (cases a)
  case (Cycle g slack pick)
  show ?thesis
  proof (cases "g < length (tasks w) \<and> alive (tasks w ! g)")
    case True
    then show ?thesis using assms Cycle wf_task [OF assms(1), of g]
      by (auto simp: unfold_ops wf_def nth_list_update split: if_splits)
  next
    case False
    then show ?thesis using assms Cycle by (auto simp: step_def)
  qed
next
  case Recv
  then show ?thesis using assms
    by (auto simp: unfold_ops wf_def nth_list_update split: list.splits)
next
  case CallStop
  then show ?thesis using assms
    by (auto simp: unfold_ops wf_def nth_list_update split: if_splits)
qed

lemma step_single:
  assumes "wf t w" and "single t w" and "step t a w = Inr w'"
  shows "single t w'"
proof (cases a)
  case (Cycle g slack pick)
  show ?thesis
  proof (cases "g < length (tasks w) \<and> alive (tasks w ! g)")
    case True
    then show ?thesis using assms Cycle wf_task [OF assms(1), of g]
      by (auto simp: unfold_ops wf_def single_def nth_list_update split: if_splits)
  next
    case False
    then show ?thesis using assms Cycle by (auto simp: step_def)
  qed
next
  case Recv
  then show ?thesis using assms
    by (auto simp: unfold_ops wf_def single_def nth_list_update split: list.splits)
next
  case CallStop
  then show ?thesis using assms
    by (auto simp: unfold_ops wf_def single_def nth_list_update split: if_splits)
qed

text \<open>An iteration that finds the stop channel open and the buffer occupied drops its event.\<close>

lemma step_cycle_full:
  assumes "wf t w" and "g < length (tasks w)" and "alive (tasks w ! g)"
    and "\<not> closed (chans w ! stop t)" and "buf (chans w ! C t) \<noteq> []"
  shows "\<exists>w'. step t (Cycle g slack pick) w = Inr w' \<and> chans w' = chans w \<and>
           alive (tasks w' ! g) \<and> trace w' = trace w @ [Dropped (clock w')]"
  using assms wf_task [OF assms(1), of g]
  by (auto simp: unfold_ops wf_def)

text \<open>An iteration that finds the stop channel open completes and leaves the loop running.\<close>

lemma step_cycle_open:
  assumes "wf t w" and "g < length (tasks w)" and "alive (tasks w ! g)"
    and "\<not> closed (chans w ! stop t)"
  shows "\<exists>w'. step t (Cycle g slack pick) w = Inr w' \<and> alive (tasks w' ! g) \<and>
           length (produced (trace w')) = Suc (length (produced (trace w))) \<and>
           received (trace w') = received (trace w)"
  using assms wf_task [OF assms(1), of g]
  by (auto simp: unfold_ops wf_def produced_append received_append)

section \<open>Runs\<close>

lemma step_inv: "inv t w \<Longrightarrow> step t a w = Inr w' \<Longrightarrow> inv t w'"
  unfolding inv_def
  by (intro conjI) (blast intro: step_wf step_single step_buf step_fifo step_timed)+

lemma run_inv: "inv t w \<Longrightarrow> run t sched w = Inr w' \<Longrightarrow> inv t w'"
  by (induction sched arbitrary: w) (auto split: sum.splits dest: step_inv)

lemma run_strict:
  "inv t w \<Longrightarrow> sint (interval t) + sint (jitter t) \<le> 2 ^ 63 \<Longrightarrow>
   sorted_wrt (<) (produced (trace w)) \<Longrightarrow> run t sched w = Inr w' \<Longrightarrow>
   sorted_wrt (<) (produced (trace w'))"
proof (induction sched arbitrary: w)
  case Nil
  then show ?case by simp
next
  case (Cons a sched)
  from Cons.prems(4) obtain w1 where s: "step t a w = Inr w1" and r: "run t sched w1 = Inr w'"
    by (auto split: sum.splits)
  have "inv t w1" using Cons.prems(1) s by (rule step_inv)
  moreover have "sorted_wrt (<) (produced (trace w1))"
    using Cons.prems s by (auto simp: inv_def intro: step_strict)
  ultimately show ?case using Cons.IH Cons.prems(2) r by blast
qed

lemma run_panic:
  "inv t w \<Longrightarrow> run t sched w = Inl e \<Longrightarrow> e = RuntimePanic ''close of closed channel''"
proof (induction sched arbitrary: w)
  case Nil
  then show ?case by simp
next
  case (Cons a sched)
  show ?case
  proof (cases "step t a w")
    case (Inl e')
    then show ?thesis using Cons.prems step_panic [of t w a e'] by (simp add: inv_def)
  next
    case (Inr w1)
    then show ?thesis using Cons step_inv [of t w a w1] by simp
  qed
qed

lemma run_closed:
  "inv t w \<Longrightarrow> run t sched w = Inr w' \<Longrightarrow>
   closed (chans w' ! stop t) = (closed (chans w ! stop t) \<or> CallStop \<in> set sched)"
proof (induction sched arbitrary: w)
  case Nil
  then show ?case by simp
next
  case (Cons a sched)
  from Cons.prems(2) obtain w1 where s: "step t a w = Inr w1" and r: "run t sched w1 = Inr w'"
    by (auto split: sum.splits)
  have i1: "inv t w1" using Cons.prems(1) s by (rule step_inv)
  have "closed (chans w1 ! stop t) = (closed (chans w ! stop t) \<or> a = CallStop)"
    using Cons.prems(1) s by (intro step_closed) (simp_all add: inv_def)
  then show ?case using Cons.IH [OF i1 r] by auto
qed

lemma run_stop_once:
  "inv t w \<Longrightarrow> run t sched w = Inr w' \<Longrightarrow>
   count_list sched CallStop \<le> (if closed (chans w ! stop t) then 0 else 1)"
proof (induction sched arbitrary: w)
  case Nil
  then show ?case by simp
next
  case (Cons a sched)
  from Cons.prems(2) obtain w1 where s: "step t a w = Inr w1" and r: "run t sched w1 = Inr w'"
    by (auto split: sum.splits)
  have i1: "inv t w1" using Cons.prems(1) s by (rule step_inv)
  have c: "closed (chans w1 ! stop t) = (closed (chans w ! stop t) \<or> a = CallStop)"
    using Cons.prems(1) s by (intro step_closed) (simp_all add: inv_def)
  have p: "\<not> (a = CallStop \<and> closed (chans w ! stop t))"
    using s by (auto simp: step_def Stop_def close_chan_def chan_at_def split: if_splits)
  show ?case using Cons.IH [OF i1 r] c p by (auto split: if_splits)
qed

lemma run_cycles:
  assumes "inv t w" and "\<not> closed (chans w ! stop t)" and "list_all (cycle_of 0) later"
  shows "\<exists>w'. run t later w = Inr w' \<and> alive (tasks w' ! 0) \<and>
           length (produced (trace w')) = length (produced (trace w)) + length later \<and>
           received (trace w') = received (trace w)"
  using assms
proof (induction later arbitrary: w)
  case Nil
  then show ?case by (simp add: inv_def single_def)
next
  case (Cons a later)
  from Cons.prems(3) obtain slack pick where a: "a = Cycle 0 slack pick"
    by (cases a) simp_all
  have shape: "wf t w" "0 < length (tasks w)" "alive (tasks w ! 0)"
    using Cons.prems(1,2) by (simp_all add: inv_def single_def)
  from step_cycle_open [OF shape Cons.prems(2), of slack pick]
  obtain w1 where s: "step t a w = Inr w1"
    and p: "length (produced (trace w1)) = Suc (length (produced (trace w)))"
    and r: "received (trace w1) = received (trace w)"
    unfolding a by blast
  have i1: "inv t w1" using Cons.prems(1) s by (rule step_inv)
  have "closed (chans w1 ! stop t) = (closed (chans w ! stop t) \<or> a = CallStop)"
    using shape(1) s by (rule step_closed)
  then have o1: "\<not> closed (chans w1 ! stop t)" using Cons.prems(2) a by simp
  from Cons.IH [OF i1 o1] Cons.prems(3) s p r show ?case by auto
qed

section \<open>Stop\<close>

lemma Stop_open:
  assumes "wf t w" and "\<not> closed (chans w ! stop t)"
  shows "\<exists>w'. Stop t w = Inr w' \<and> closed (chans w' ! stop t) \<and> tasks w' = tasks w \<and>
           trace w' = trace w \<and> clock w' = clock w \<and> chans w' ! C t = chans w ! C t \<and>
           Stop t w' = Inl (RuntimePanic ''close of closed channel'')"
  using assms by (auto simp: Stop_def close_chan_def chan_at_def wf_def)

lemma Stop_closed:
  assumes "wf t w" and "closed (chans w ! stop t)"
  shows "Stop t w = Inl (RuntimePanic ''close of closed channel'')"
  using assms by (simp add: Stop_def close_chan_def chan_at_def wf_def)

section \<open>Construction\<close>

lemma NewTicker_demo: "NewTicker demo_source 100 50 (fresh 7) = (Inr demo_ticker, demo_world)"
  by (simp add: NewTicker_def fresh_def make_chan_def go_def demo_ticker_def demo_world_def Let_def)

lemma Int63n_Inr:
  "0 < sint n \<Longrightarrow> Int63n r n = Inr ((src r (pos r) AND mask 63) mod n, r\<lparr>pos := Suc (pos r)\<rparr>)"
  by (simp add: Int63n_def Int63_def)

lemma NewTicker_inv:
  assumes "NewTicker NewSource intv jit (fresh now) = (Inr t, w)"
  shows "inv t w \<and> \<not> closed (chans w ! stop t) \<and> trace w = [] \<and>
     interval t = intv \<and> jitter t = jit"
  using assms
  by (auto simp: NewTicker_def Let_def fresh_def make_chan_def go_def inv_def wf_def timed_def
      single_def split: if_splits)

lemma NewTicker_fields:
  assumes "NewTicker NewSource intv jit w0 = (Inr t, w)"
  shows "interval t = intv \<and> jitter t = jit \<and> 0 < sint intv \<and> 0 < sint jit \<and>
     random t = \<lparr>src = NewSource (of_int (clock w0)), pos = 0\<rparr>"
  using assms
  by (auto simp: NewTicker_def Let_def make_chan_def split: if_splits)

lemma run_demo: "run demo_ticker demo_sched demo_world = Inr demo_final"
  by (simp add: demo_sched_def demo_world_def demo_final_def demo_ticker_def demo_source_def
      unfold_ops mask_eq_exp_minus_1)

lemma run_stopped: "run demo_ticker stopped_sched demo_world = Inr stopped_final"
  by (simp add: stopped_sched_def demo_world_def stopped_final_def demo_ticker_def
      demo_source_def unfold_ops mask_eq_exp_minus_1)

lemma run_drain: "run demo_ticker drain_sched demo_world = Inr drain_final"
  by (simp add: drain_sched_def demo_world_def drain_final_def demo_ticker_def demo_source_def
      unfold_ops mask_eq_exp_minus_1)

lemma delays_cong:
  "random t = random t' \<Longrightarrow> jitter t = jitter t' \<Longrightarrow> delays t n = delays t' n"
proof (induction n arbitrary: t t')
  case 0
  show ?case by simp
next
  case (Suc n)
  show ?case
  proof (cases "Int63n (random t) (jitter t)")
    case (Inl e)
    then show ?thesis using Suc.prems by simp
  next
    case (Inr p)
    obtain delay r' where p: "p = (delay, r')" by (cases p)
    have "delays (t\<lparr>random := r'\<rparr>) n = delays (t'\<lparr>random := r'\<rparr>) n"
      using Suc.prems by (intro Suc.IH) simp_all
    then show ?thesis using Inr p Suc.prems by simp
  qed
qed

text \<open>The delays listed by \<open>delays\<close> are the ones \<^verbatim>\<open>sleep\<close> adds to the interval.\<close>

lemma sleep_draws_delays:
  assumes "delays t (Suc n) = d # ds"
  shows "\<exists>r'. sleep t slack w = Inr (t\<lparr>random := r'\<rparr>, time_Sleep (interval t + d) slack w) \<and>
           ds = delays (t\<lparr>random := r'\<rparr>) n"
  using assms by (auto simp: sleep_def split: sum.splits)

text \<open>
  C2. If \<open>interval \<le> 0\<close> or \<open>jitter \<le> 0\<close>, \<^verbatim>\<open>NewTicker\<close> panics with the error built by
  \<^verbatim>\<open>fmt.Errorf\<close> and leaves the program state exactly as it found it: no channel has
  been made, no goroutine started and no event logged.
\<close>

theorem NewTicker_invalid:
  assumes "sint intv \<le> 0 \<or> sint jit \<le> 0"
  shows "NewTicker NewSource intv jit w =
     (Inl (if sint intv \<le> 0
           then Errorf ''non-positive interval for NewTicker: %d'' (sint intv)
           else Errorf ''non-positive jitter for NewTicker: %d'' (sint jit)), w)"
  using assms by (auto simp: NewTicker_def)

theorem NewTicker_invalid_witness:
  "NewTicker demo_source 100 0 (fresh 7) =
     (Inl (Errorf ''non-positive jitter for NewTicker: %d'' 0), fresh 7)"
  using NewTicker_invalid [of 100 0 demo_source "fresh 7"] by simp

text \<open>
  C10. The interval is checked before the jitter: when both are non-positive the panic is
  the one about the interval, and it carries the interval.
\<close>

theorem NewTicker_checks_interval_first:
  assumes "sint intv \<le> 0" and "sint jit \<le> 0"
  shows "fst (NewTicker NewSource intv jit w) =
     Inl (Errorf ''non-positive interval for NewTicker: %d'' (sint intv))"
  using assms by (simp add: NewTicker_def)

theorem NewTicker_checks_interval_first_witness:
  "fst (NewTicker demo_source (- 3) (- 5) (fresh 7)) =
     Inl (Errorf ''non-positive interval for NewTicker: %d'' (- 3))"
  using NewTicker_checks_interval_first [of "- 3" "- 5" demo_source "fresh 7"] by simp

section \<open>The sleep of one cycle\<close>

text \<open>
  C1, as the code has it. For a ticker with positive interval \<open>I\<close> and jitter \<open>J\<close>, the
  delay drawn by \<^verbatim>\<open>sleep\<close> lies in \<open>[0, J)\<close>. The duration handed to \<^verbatim>\<open>time.Sleep\<close> is
  the \<^verbatim>\<open>int64\<close> sum \<open>interval + delay\<close>; it satisfies \<open>I \<le> d < I + J\<close> when
  \<open>I + J \<le> 2^63\<close>, that is, when no possible delay makes the sum overflow.
\<close>

theorem sleep_duration:
  assumes I: "0 < sint (interval t)" and J: "0 < sint (jitter t)"
  shows "\<exists>delay r'. Int63n (random t) (jitter t) = Inr (delay, r') \<and>
           sleep t slack w = Inr (t\<lparr>random := r'\<rparr>, time_Sleep (interval t + delay) slack w) \<and>
           0 \<le> sint delay \<and> sint delay < sint (jitter t) \<and>
           (sint (interval t) + sint (jitter t) \<le> 2 ^ 63 \<longrightarrow>
              sint (interval t) \<le> sint (interval t + delay) \<and>
              sint (interval t + delay) < sint (interval t) + sint (jitter t))"
proof -
  define delay where "delay = (src (random t) (pos (random t)) AND mask 63) mod jitter t"
  define r' where "r' = (random t)\<lparr>pos := Suc (pos (random t))\<rparr>"
  have draw: "Int63n (random t) (jitter t) = Inr (delay, r')"
    unfolding delay_def r'_def using J by (rule Int63n_Inr)
  have sl: "sleep t slack w = Inr (t\<lparr>random := r'\<rparr>, time_Sleep (interval t + delay) slack w)"
    by (simp add: sleep_def draw)
  have rng: "0 \<le> sint delay \<and> sint delay < sint (jitter t)"
    unfolding delay_def using J by (rule mod_range)
  have tot: "sint (interval t) \<le> sint (interval t + delay) \<and>
      sint (interval t + delay) < sint (interval t) + sint (jitter t)"
    if no: "sint (interval t) + sint (jitter t) \<le> 2 ^ 63"
  proof -
    have "sint (interval t + delay) = sint (interval t) + sint delay"
      using no rng I by (intro sint_add_no_ovf) simp_all
    with rng show ?thesis by simp
  qed
  from draw sl rng tot show ?thesis by blast
qed

theorem sleep_duration_witness:
  "\<exists>delay r'. Int63n (random demo_ticker) (jitter demo_ticker) = Inr (delay, r') \<and>
      sleep demo_ticker 0 demo_world =
        Inr (demo_ticker\<lparr>random := r'\<rparr>, time_Sleep (interval demo_ticker + delay) 0 demo_world) \<and>
      0 \<le> sint delay \<and> sint delay < 50 \<and>
      100 \<le> sint (interval demo_ticker + delay) \<and> sint (interval demo_ticker + delay) < 150"
  using sleep_duration [of demo_ticker 0 demo_world] by (simp add: demo_ticker_def)

text \<open>
  C1 as stated fails where the sum overflows: with interval \<open>2^63 - 1\<close> and jitter 2, a
  draw of 1 makes \<open>interval + delay\<close> wrap to \<open>- 2^63\<close>, which is below the interval;
  \<^verbatim>\<open>time.Sleep\<close> then returns at once and the clock has not advanced.
\<close>

theorem sleep_overflow_counterexample:
  "fst (NewTicker demo_source 9223372036854775807 2 (fresh 1)) = Inr huge_ticker \<and>
   0 < sint (interval huge_ticker) \<and> 0 < sint (jitter huge_ticker) \<and>
   Int63n (random huge_ticker) (jitter huge_ticker) = Inr (1, (random huge_ticker)\<lparr>pos := 1\<rparr>) \<and>
   sleep huge_ticker 0 (fresh 1) =
     Inr (huge_ticker\<lparr>random := (random huge_ticker)\<lparr>pos := 1\<rparr>\<rparr>, fresh 1) \<and>
   sint (interval huge_ticker + 1) = - 9223372036854775808 \<and>
   \<not> sint (interval huge_ticker) \<le> sint (interval huge_ticker + 1)"
  by (simp add: NewTicker_def Let_def fresh_def make_chan_def go_def huge_ticker_def
      demo_source_def Int63n_def Int63_def sleep_def time_Sleep_def mask_eq_exp_minus_1)


text \<open>
  C9. A ticker that \<^verbatim>\<open>NewTicker\<close> returns has a positive jitter, and so does the copy held
  by its goroutine in every state the program reaches: the draw in \<^verbatim>\<open>sleep\<close> succeeds,
  \<^verbatim>\<open>sleep\<close> returns, and no continuation of the run ends in the panic of \<^verbatim>\<open>Int63n\<close>.
\<close>

theorem sleep_never_panics:
  assumes N: "NewTicker NewSource intv jit (fresh now) = (Inr t, w0)"
    and R: "run t sched w0 = Inr w" and K: "k \<in> set (tasks w)"
  shows "0 < sint (jitter t) \<and> jitter (self k) = jitter t \<and>
     (\<exists>delay r'. Int63n (random (self k)) (jitter (self k)) = Inr (delay, r')) \<and>
     (\<exists>t' w'. sleep (self k) slack w = Inr (t', w')) \<and>
     run t later w \<noteq> Inl (RuntimePanic ''invalid argument to Int63n'')"
proof -
  have i: "inv t w" using NewTicker_inv [OF N] R by (blast intro: run_inv)
  then have J: "0 < sint (jitter t)" and kj: "jitter (self k) = jitter t"
    using K by (auto simp: inv_def wf_def list_all_iff)
  have draw: "Int63n (random (self k)) (jitter (self k)) =
      Inr ((src (random (self k)) (pos (random (self k))) AND mask 63) mod jitter (self k),
           (random (self k))\<lparr>pos := Suc (pos (random (self k)))\<rparr>)"
    using J kj by (intro Int63n_Inr) simp
  have sl: "\<exists>t' w'. sleep (self k) slack w = Inr (t', w')"
    by (simp add: sleep_def draw)
  have "run t later w \<noteq> Inl (RuntimePanic ''invalid argument to Int63n'')"
  proof
    assume "run t later w = Inl (RuntimePanic ''invalid argument to Int63n'')"
    from run_panic [OF i this] show False by simp
  qed
  with J kj draw sl show ?thesis by blast
qed

theorem sleep_never_panics_witness:
  "jitter (self (tasks demo_final ! 0)) = 50 \<and>
   (\<exists>delay r'. Int63n (random (self (tasks demo_final ! 0))) 50 = Inr (delay, r')) \<and>
   (\<exists>t' w'. sleep (self (tasks demo_final ! 0)) 4 demo_final = Inr (t', w')) \<and>
   run demo_ticker [Cycle 0 0 0, CallStop, Cycle 0 1 0] demo_final \<noteq>
     Inl (RuntimePanic ''invalid argument to Int63n'')"
  using sleep_never_panics [OF NewTicker_demo run_demo, of "tasks demo_final ! 0" 4
      "[Cycle 0 0 0, CallStop, Cycle 0 1 0]"]
  by (simp add: demo_final_def demo_ticker_def)

section \<open>The loop and the stop signal\<close>

text \<open>
  C3 fails on the code. After \<^verbatim>\<open>Stop\<close>, the goroutine wakes with the stop channel closed
  and the buffer empty: both communications of the \<^verbatim>\<open>select\<close> can proceed, and when the
  runtime picks the send, the event is delivered and the loop keeps running.
\<close>

theorem tick_sends_after_stop:
  "Stop demo_ticker demo_world =
     Inr (demo_world\<lparr>chans := [\<lparr>cap = 1, buf = [], closed = False\<rparr>,
                                \<lparr>cap = 0, buf = [], closed = True\<rparr>]\<rparr>) \<and>
   ready demo_ticker 0
     (demo_world\<lparr>chans := [\<lparr>cap = 1, buf = [], closed = False\<rparr>,
                            \<lparr>cap = 0, buf = [], closed = True\<rparr>]\<rparr>) = [RecvStop, SendC] \<and>
   select_pick 1 [RecvStop, SendC] = SendC \<and>
   run demo_ticker [CallStop, Cycle 0 0 1] demo_world =
     Inr \<lparr>clock = 114,
          chans = [\<lparr>cap = 1, buf = [114], closed = False\<rparr>, \<lparr>cap = 0, buf = [], closed = True\<rparr>],
          tasks = [\<lparr>self = demo_ticker\<lparr>random := \<lparr>src = demo_source 7, pos = 1\<rparr>\<rparr>,
                    out = 0, alive = True\<rparr>],
          trace = [Sent 114]\<rparr>"
  by (simp add: demo_world_def demo_ticker_def demo_source_def unfold_ops mask_eq_exp_minus_1)

text \<open>
  C4 fails on the code for the same reason. With a consumer that drains the channel, the
  loop delivers two events after \<^verbatim>\<open>Stop\<close> has returned, and it is still running after
  two further cycles.
\<close>

theorem two_events_after_stop:
  "run demo_ticker [CallStop, Cycle 0 0 1, Recv, Cycle 0 0 1, Recv] demo_world =
     Inr \<lparr>clock = 222,
          chans = [\<lparr>cap = 1, buf = [], closed = False\<rparr>, \<lparr>cap = 0, buf = [], closed = True\<rparr>],
          tasks = [\<lparr>self = demo_ticker\<lparr>random := \<lparr>src = demo_source 7, pos = 2\<rparr>\<rparr>,
                    out = 0, alive = True\<rparr>],
          trace = [Sent 114, Received 114, Sent 222, Received 222]\<rparr>"
  by (simp add: demo_world_def demo_ticker_def demo_source_def unfold_ops mask_eq_exp_minus_1)

text \<open>
  C6. In a run that has not panicked \<^verbatim>\<open>Stop\<close> was called at most once, and the stop
  channel is closed exactly if it was called. Where it was not, \<^verbatim>\<open>Stop\<close> returns: it
  closes the stop channel and changes neither the goroutine, the event channel, the
  clock nor the log; a second \<^verbatim>\<open>Stop\<close> panics. Where it was, \<^verbatim>\<open>Stop\<close> panics.
\<close>

theorem Stop_once:
  assumes N: "NewTicker NewSource intv jit (fresh now) = (Inr t, w0)"
    and R: "run t sched w0 = Inr w"
  shows "count_list sched CallStop \<le> 1 \<and>
     closed (chans w ! stop t) = (CallStop \<in> set sched) \<and>
     (CallStop \<notin> set sched \<longrightarrow>
        (\<exists>w'. Stop t w = Inr w' \<and> closed (chans w' ! stop t) \<and> tasks w' = tasks w \<and>
           trace w' = trace w \<and> clock w' = clock w \<and> chans w' ! C t = chans w ! C t \<and>
           Stop t w' = Inl (RuntimePanic ''close of closed channel''))) \<and>
     (CallStop \<in> set sched \<longrightarrow> Stop t w = Inl (RuntimePanic ''close of closed channel''))"
proof -
  have i0: "inv t w0" and o0: "\<not> closed (chans w0 ! stop t)"
    using NewTicker_inv [OF N] by simp_all
  have i: "inv t w" using i0 R by (rule run_inv)
  then have wf: "wf t w" by (simp add: inv_def)
  have c: "closed (chans w ! stop t) = (CallStop \<in> set sched)"
    using run_closed [OF i0 R] o0 by simp
  have n: "count_list sched CallStop \<le> 1"
    using run_stop_once [OF i0 R] o0 by simp
  show ?thesis using n c Stop_open [OF wf] Stop_closed [OF wf] by simp
qed

theorem Stop_once_witness:
  "(\<exists>w'. Stop demo_ticker demo_final = Inr w' \<and> closed (chans w' ! stop demo_ticker) \<and>
      tasks w' = tasks demo_final \<and> trace w' = trace demo_final \<and>
      clock w' = clock demo_final \<and>
      chans w' ! C demo_ticker = chans demo_final ! C demo_ticker \<and>
      Stop demo_ticker w' = Inl (RuntimePanic ''close of closed channel'')) \<and>
   Stop demo_ticker stopped_final = Inl (RuntimePanic ''close of closed channel'')"
proof -
  have a: "CallStop \<notin> set demo_sched" by (simp add: demo_sched_def)
  have b: "CallStop \<in> set stopped_sched" by (simp add: stopped_sched_def)
  from Stop_once [OF NewTicker_demo run_demo] Stop_once [OF NewTicker_demo run_stopped] a b
  show ?thesis by blast
qed

section \<open>The event channel\<close>

text \<open>
  C5. In every state the program reaches, the event channel has capacity 1 and holds at
  most one event. While \<^verbatim>\<open>Stop\<close> has not been called: an iteration that finds the
  buffer occupied returns without a panic, leaves every channel as it was and logs the
  event as dropped; and any number of further iterations, with no receive between them,
  all complete, the loop still running after the last.
\<close>

theorem event_buffer_capacity_one:
  assumes N: "NewTicker NewSource intv jit (fresh now) = (Inr t, w0)"
    and R: "run t sched w0 = Inr w"
  shows "cap (chans w ! C t) = 1 \<and> length (buf (chans w ! C t)) \<le> 1 \<and>
     (CallStop \<notin> set sched \<and> buf (chans w ! C t) \<noteq> [] \<longrightarrow>
        (\<exists>w'. step t (Cycle 0 slack pick) w = Inr w' \<and> chans w' = chans w \<and>
           alive (tasks w' ! 0) \<and> trace w' = trace w @ [Dropped (clock w')])) \<and>
     (CallStop \<notin> set sched \<and> list_all (cycle_of 0) later \<longrightarrow>
        (\<exists>w'. run t later w = Inr w' \<and> alive (tasks w' ! 0) \<and>
           length (produced (trace w')) = length (produced (trace w)) + length later \<and>
           received (trace w') = received (trace w)))"
proof -
  have i0: "inv t w0" and o0: "\<not> closed (chans w0 ! stop t)"
    using NewTicker_inv [OF N] by simp_all
  have i: "inv t w" using i0 R by (rule run_inv)
  then have wf: "wf t w" and one: "length (buf (chans w ! C t)) \<le> 1"
    and sg: "single t w" by (simp_all add: inv_def)
  have cap1: "cap (chans w ! C t) = 1" using wf by (simp add: wf_def)
  have c: "closed (chans w ! stop t) = (CallStop \<in> set sched)"
    using run_closed [OF i0 R] o0 by simp
  have drop: "\<exists>w'. step t (Cycle 0 slack pick) w = Inr w' \<and> chans w' = chans w \<and>
      alive (tasks w' ! 0) \<and> trace w' = trace w @ [Dropped (clock w')]"
    if "CallStop \<notin> set sched" and "buf (chans w ! C t) \<noteq> []"
  proof -
    have "\<not> closed (chans w ! stop t)" using c that(1) by simp
    moreover from this have "0 < length (tasks w)" "alive (tasks w ! 0)"
      using sg by (simp_all add: single_def)
    ultimately show ?thesis using wf that(2) by (intro step_cycle_full) simp_all
  qed
  have live: "\<exists>w'. run t later w = Inr w' \<and> alive (tasks w' ! 0) \<and>
      length (produced (trace w')) = length (produced (trace w)) + length later \<and>
      received (trace w') = received (trace w)"
    if "CallStop \<notin> set sched" and "list_all (cycle_of 0) later"
  proof -
    have "\<not> closed (chans w ! stop t)" using c that(1) by simp
    then show ?thesis using i that(2) by (intro run_cycles) simp_all
  qed
  show ?thesis
  proof (intro conjI impI)
    show "cap (chans w ! C t) = 1" by (fact cap1)
    show "length (buf (chans w ! C t)) \<le> 1" by (fact one)
    show "\<exists>w'. step t (Cycle 0 slack pick) w = Inr w' \<and> chans w' = chans w \<and>
        alive (tasks w' ! 0) \<and> trace w' = trace w @ [Dropped (clock w')]"
      if "CallStop \<notin> set sched \<and> buf (chans w ! C t) \<noteq> []"
      using that by (intro drop) simp_all
    show "\<exists>w'. run t later w = Inr w' \<and> alive (tasks w' ! 0) \<and>
        length (produced (trace w')) = length (produced (trace w)) + length later \<and>
        received (trace w') = received (trace w)"
      if "CallStop \<notin> set sched \<and> list_all (cycle_of 0) later"
      using that by (intro live) simp_all
  qed
qed

theorem event_buffer_capacity_one_witness:
  "cap (chans demo_final ! C demo_ticker) = 1 \<and>
   length (buf (chans demo_final ! C demo_ticker)) \<le> 1 \<and>
   (\<exists>w'. step demo_ticker (Cycle 0 5 1) demo_final = Inr w' \<and> chans w' = chans demo_final \<and>
      alive (tasks w' ! 0) \<and> trace w' = trace demo_final @ [Dropped (clock w')]) \<and>
   (\<exists>w'. run demo_ticker [Cycle 0 0 0, Cycle 0 9 1, Cycle 0 0 1] demo_final = Inr w' \<and>
      alive (tasks w' ! 0) \<and>
      length (produced (trace w')) =
        length (produced (trace demo_final)) + length [Cycle 0 0 0, Cycle 0 9 1, Cycle 0 0 1] \<and>
      received (trace w') = received (trace demo_final))"
proof -
  have a: "CallStop \<notin> set demo_sched" by (simp add: demo_sched_def)
  have b: "buf (chans demo_final ! C demo_ticker) \<noteq> []"
    by (simp add: demo_final_def demo_ticker_def)
  have c: "list_all (cycle_of 0) [Cycle 0 0 0, Cycle 0 9 1, Cycle 0 0 1]" by simp
  from event_buffer_capacity_one [OF NewTicker_demo run_demo, of 5 1
      "[Cycle 0 0 0, Cycle 0 9 1, Cycle 0 0 1]"] a b c
  show ?thesis by blast
qed

text \<open>
  C7, as the code has it. The timestamps the consumer has received are the first of those
  sent on the channel, in the order sent; they are a subsequence of the timestamps the
  loop produced (dropped events are the gaps); and they never decrease. They increase
  strictly when \<open>interval + jitter\<close> cannot overflow, every sleep then being at least the
  interval.
\<close>

theorem delivery_order:
  assumes N: "NewTicker NewSource intv jit (fresh now) = (Inr t, w0)"
    and R: "run t sched w0 = Inr w"
  shows "prefix (received (trace w)) (sent (trace w)) \<and>
     subseq (received (trace w)) (produced (trace w)) \<and>
     sorted (received (trace w)) \<and>
     (sint intv + sint jit \<le> 2 ^ 63 \<longrightarrow> sorted_wrt (<) (received (trace w)))"
proof -
  have i0: "inv t w0" and e0: "trace w0 = []" and f: "interval t = intv" "jitter t = jit"
    using NewTicker_inv [OF N] by simp_all
  have i: "inv t w" using i0 R by (rule run_inv)
  then have fifo: "received (trace w) @ buf (chans w ! C t) = sent (trace w)"
    and srt: "sorted (produced (trace w))" by (simp_all add: inv_def timed_def)
  have pre: "prefix (received (trace w)) (sent (trace w))"
    using fifo [symmetric] by (rule prefixI)
  then have "subseq (received (trace w)) (sent (trace w))" by (rule prefix_imp_subseq)
  then have sub: "subseq (received (trace w)) (produced (trace w))"
    using subseq_sent_produced [of "trace w"] by (rule subseq_order.order_trans)
  have mono: "sorted (received (trace w))" using sub srt by (rule sorted_wrt_subseq)
  have strict: "sorted_wrt (<) (received (trace w))" if no: "sint intv + sint jit \<le> 2 ^ 63"
  proof -
    have s0: "sorted_wrt (<) (produced (trace w0))" by (simp add: e0)
    have no': "sint (interval t) + sint (jitter t) \<le> 2 ^ 63" using no by (simp only: f)
    have "sorted_wrt (<) (produced (trace w))" using i0 no' s0 R by (rule run_strict)
    with sub show ?thesis by (rule sorted_wrt_subseq)
  qed
  show ?thesis
  proof (intro conjI impI)
    show "prefix (received (trace w)) (sent (trace w))" by (fact pre)
    show "subseq (received (trace w)) (produced (trace w))" by (fact sub)
    show "sorted (received (trace w))" by (fact mono)
    show "sorted_wrt (<) (received (trace w))" if "sint intv + sint jit \<le> 2 ^ 63"
      using that by (rule strict)
  qed
qed

text \<open>
  On the run below the loop produces 114, 224 and 333; 224 is dropped, and the consumer
  receives 114 and then 333.
\<close>

theorem delivery_order_witness:
  "produced (trace drain_final) = [114, 224, 333] \<and> sent (trace drain_final) = [114, 333] \<and>
   received (trace drain_final) = [114, 333] \<and>
   prefix (received (trace drain_final)) (sent (trace drain_final)) \<and>
   subseq (received (trace drain_final)) (produced (trace drain_final)) \<and>
   sorted (received (trace drain_final)) \<and>
   sorted_wrt (<) (received (trace drain_final))"
proof -
  have no: "sint (100::64 word) + sint (50::64 word) \<le> 2 ^ 63" by simp
  have ev: "produced (trace drain_final) = [114, 224, 333]"
    "sent (trace drain_final) = [114, 333]" "received (trace drain_final) = [114, 333]"
    by (simp_all add: drain_final_def)
  from delivery_order [OF NewTicker_demo run_drain] no ev show ?thesis by blast
qed

text \<open>
  C7 as stated, with the timestamps increasing, fails where the sum overflows: with
  interval \<open>2^63 - 1\<close> and jitter 3, draws of 1 and 2 make \<open>interval + delay\<close> negative,
  both sleeps return at once, and the consumer receives the clock reading 1 twice.
\<close>

theorem equal_stamps_counterexample:
  "NewTicker demo_source 9223372036854775807 3 (fresh 1) = (Inr wrap_ticker, wrap_world) \<and>
   run wrap_ticker [Cycle 0 0 0, Recv, Cycle 0 0 0, Recv] wrap_world = Inr wrap_final \<and>
   received (trace wrap_final) = [1, 1] \<and>
   \<not> sorted_wrt (<) (received (trace wrap_final))"
  by (simp add: NewTicker_def Let_def fresh_def make_chan_def go_def wrap_ticker_def
      wrap_world_def wrap_final_def demo_source_def unfold_ops mask_eq_exp_minus_1)

section \<open>The random source\<close>

text \<open>
  C8, as the code has it. The jitter sequence of an instance is a function of its seed,
  the clock reading at construction, and of its jitter bound: two instances made with
  the same parameters at clock readings that give the same seed draw the same delays in
  every cycle. Their sequences can differ only if the readings differ.
\<close>

theorem same_seed_same_delays:
  assumes "NewTicker NewSource intv jit w1 = (Inr t1, w1')"
    and "NewTicker NewSource intv jit w2 = (Inr t2, w2')"
    and "(of_int (clock w1) :: 64 word) = of_int (clock w2)"
  shows "delays t1 n = delays t2 n"
proof -
  have "random t1 = random t2" and "jitter t1 = jitter t2"
    using NewTicker_fields [OF assms(1)] NewTicker_fields [OF assms(2)] assms(3) by simp_all
  then show ?thesis by (rule delays_cong)
qed

lemma NewTicker_twin:
  "NewTicker demo_source 100 50 demo_world =
     (Inr demo_twin, go \<lparr>self = demo_twin, out = 2, alive = True\<rparr>
        (snd (make_chan 0 (snd (make_chan 1 demo_world)))))"
  by (simp add: NewTicker_def Let_def make_chan_def go_def demo_twin_def demo_world_def)

theorem same_seed_same_delays_witness:
  "delays demo_ticker 3 = delays demo_twin 3"
  using same_seed_same_delays [OF NewTicker_demo NewTicker_twin, of 3]
  by (simp add: fresh_def demo_world_def)

text \<open>
  C8 as stated fails: a second ticker made with the same parameters while the clock
  still reads 7 gets the same seed, and the two draw the same delays.
\<close>

theorem lockstep_counterexample:
  "NewTicker demo_source 100 50 (fresh 7) = (Inr demo_ticker, demo_world) \<and>
   clock demo_world = 7 \<and>
   fst (NewTicker demo_source 100 50 demo_world) = Inr demo_twin \<and>
   delays demo_ticker 3 = [7, 8, 9] \<and> delays demo_twin 3 = [7, 8, 9]"
  by (simp add: NewTicker_def Let_def fresh_def make_chan_def go_def demo_ticker_def
      demo_twin_def demo_world_def demo_source_def Int63n_def Int63_def numeral_3_eq_3
      mask_eq_exp_minus_1)


end
